theory Spec2Isabelle
  imports Complex_Main "HOL-Library.List_Lexorder" "HOL-Library.Char_ord"
begin

section \<open>Data model\<close>

text \<open>
  The status strings that occur in the sources: \<open>'pending'\<close> (the schema in
  \<open>models/BloodRequest.js\<close> and the scheduler), \<open>'active'\<close> and \<open>'expired'\<close> (the
  controller with \<open>confirmDonation\<close>), \<open>'fulfilled'\<close> and \<open>'cancelled'\<close> (all of them).
\<close>

datatype status = Pending | Active | Fulfilled | Expired | Cancelled

text \<open>
  A BloodRequest document. \<open>rid\<close> is \<open>_id\<close>; dates are milliseconds since the epoch;
  the counts (\<open>quantity\<close>, \<open>confirmedUnits\<close>, \<open>batchSize\<close>, \<open>responseWindow\<close>) are
  read at the natural numbers; \<open>notifiedDonors\<close> and \<open>remainingDonorsQueue\<close> hold donor
  ids. The free-text fields (description, patientAge, patientCondition) and
  \<open>createdAt\<close> are never read by the engine and are left out.
\<close>

record request =
  rid :: nat
  hospitalId :: nat
  bloodGroup :: string
  quantity :: nat
  urgency :: string
  requiredBy :: int
  status :: status
  confirmedUnits :: nat
  batchSize :: nat
  notifiedDonors :: "nat list"
  remainingDonorsQueue :: "nat list"
  batchSentAt :: "int option"
  responseWindow :: nat
  batchInProgress :: bool

text \<open>
  A Donor document, with the fields the eligibility filter reads: \<open>_id\<close>, \<open>name\<close>,
  \<open>bloodGroup\<close>, the alias field \<open>"Blood Group"\<close> and \<open>lastDonationDate\<close>. A field that
  is absent is \<open>None\<close>.
\<close>

record donor =
  d_id :: nat
  d_name :: "string option"
  d_bloodGroup :: "string option"
  d_Blood_Group :: "string option"
  d_lastDonationDate :: "int option"

text \<open>The JSON bodies the handlers send, with the HTTP status code.\<close>

datatype payload = NoData | RequestDoc request | RequestId nat

record response =
  res_code :: nat
  res_success :: bool
  res_status :: "string option"
  res_message :: "string option"
  res_data :: payload

section \<open>The collection of requests\<close>

text \<open>
  The collection is the list of its documents in natural order. \<open>findById\<close> returns the
  first document with the id; \<open>updateOne\<close> rewrites the first document that matches a
  filter; \<open>save\<close> writes a loaded document back over the stored one with its \<open>_id\<close>;
  \<open>findOneAndUpdate\<close> (with \<open>new: true\<close>) returns the updated document, or \<open>None\<close>
  when no document matches.
\<close>

type_synonym store = "request list"

definition findById :: "nat \<Rightarrow> store \<Rightarrow> request option" where
  "findById i s = find (\<lambda>r. rid r = i) s"

fun updateOne :: "(request \<Rightarrow> bool) \<Rightarrow> (request \<Rightarrow> request) \<Rightarrow> store \<Rightarrow> store" where
  "updateOne q f [] = []"
| "updateOne q f (r # rs) = (if q r then f r # rs else r # updateOne q f rs)"

definition save :: "request \<Rightarrow> store \<Rightarrow> store" where
  "save d s = updateOne (\<lambda>r. rid r = rid d) (\<lambda>_. d) s"

definition findOneAndUpdate ::
  "(request \<Rightarrow> bool) \<Rightarrow> (request \<Rightarrow> request) \<Rightarrow> store \<Rightarrow> store \<times> request option" where
  "findOneAndUpdate q f s =
     (case find q s of
        None \<Rightarrow> (s, None)
      | Some r \<Rightarrow> (updateOne q f s, Some (f r)))"

section \<open>Notification dispatcher\<close>

text \<open>
  \<open>sendNextBatch\<close> of the controller that also has \<open>confirmDonation\<close>. \<open>now\<close> is the value
  of \<open>new Date()\<close>. The result is the new collection and \<open>nextBatchIds\<close>, the donors
  handed to the SMS fan-out: the fan-out runs over the donors found for exactly these
  ids, after the save, and writes nothing to the request. The three early returns give
  the collection back with no donor to notify.
\<close>

definition sendNextBatch :: "nat \<Rightarrow> int \<Rightarrow> store \<Rightarrow> store \<times> nat list" where
  "sendNextBatch requestId now s =
     (case findById requestId s of
        None \<Rightarrow> (s, [])
      | Some request \<Rightarrow>
          if status request = Fulfilled \<or> status request = Cancelled \<or> status request = Expired
          then (s, [])
          else if length (remainingDonorsQueue request) = 0 then (s, [])
          else
            let batchSize' = (if batchSize request = 0 then 1 else batchSize request);
                nextBatchIds = take batchSize' (remainingDonorsQueue request);
                request' = request
                  \<lparr> remainingDonorsQueue := drop batchSize' (remainingDonorsQueue request),
                    notifiedDonors := notifiedDonors request @ nextBatchIds,
                    batchSentAt := Some now,
                    batchInProgress := True \<rparr>
            in (save request' s, nextBatchIds))"

text \<open>
  The older copy in \<open>controllers/bloodRequestController.js\<close>: the same, but its guard
  tests \<open>'fulfilled'\<close> and \<open>'cancelled'\<close> only.
\<close>

definition sendNextBatch_legacy :: "nat \<Rightarrow> int \<Rightarrow> store \<Rightarrow> store \<times> nat list" where
  "sendNextBatch_legacy requestId now s =
     (case findById requestId s of
        None \<Rightarrow> (s, [])
      | Some request \<Rightarrow>
          if status request = Fulfilled \<or> status request = Cancelled
          then (s, [])
          else if length (remainingDonorsQueue request) = 0 then (s, [])
          else
            let batchSize' = (if batchSize request = 0 then 1 else batchSize request);
                nextBatchIds = take batchSize' (remainingDonorsQueue request);
                request' = request
                  \<lparr> remainingDonorsQueue := drop batchSize' (remainingDonorsQueue request),
                    notifiedDonors := notifiedDonors request @ nextBatchIds,
                    batchSentAt := Some now,
                    batchInProgress := True \<rparr>
            in (save request' s, nextBatchIds))"

section \<open>Public read and lifecycle evaluation\<close>

definition notFound :: response where
  "notFound = \<lparr> res_code = 404, res_success = False, res_status = None,
                res_message = Some ''Blood request not found'', res_data = NoData \<rparr>"

definition closed :: response where
  "closed = \<lparr> res_code = 200, res_success = True, res_status = Some ''closed'',
              res_message = Some ''Blood request fulfilled. Thank you.'', res_data = NoData \<rparr>"

definition found :: "request \<Rightarrow> response" where
  "found r = \<lparr> res_code = 200, res_success = True, res_status = None,
               res_message = None, res_data = RequestDoc r \<rparr>"

definition getBloodRequestById :: "nat \<Rightarrow> int \<Rightarrow> store \<Rightarrow> store \<times> response" where
  "getBloodRequestById i now s =
     (case findById i s of
        None \<Rightarrow> (s, notFound)
      | Some request \<Rightarrow>
          let isExpired = (now > requiredBy request);
              isFull = (confirmedUnits request \<ge> quantity request)
          in case (if status request = Active then
                     if isFull
                     then (request \<lparr> status := Fulfilled \<rparr>,
                           save (request \<lparr> status := Fulfilled \<rparr>) s)
                     else if isExpired
                     then (request \<lparr> status := Expired \<rparr>,
                           save (request \<lparr> status := Expired \<rparr>) s)
                     else (request, s)
                   else (request, s)) of
               (request', s') \<Rightarrow>
                 if status request' \<noteq> Active \<or> isFull \<or> isExpired
                 then (s', closed)
                 else (s', found request'))"

text \<open>
  \<open>getBloodRequestById\<close> of the older copy: no lifecycle evaluation, the document is
  returned whatever its status.
\<close>

definition getBloodRequestById_legacy :: "nat \<Rightarrow> store \<Rightarrow> store \<times> response" where
  "getBloodRequestById_legacy i s =
     (case findById i s of
        None \<Rightarrow> (s, notFound)
      | Some request \<Rightarrow> (s, found request))"

section \<open>Confirmation coordinator\<close>

definition alreadyClosed :: response where
  "alreadyClosed = \<lparr> res_code = 400, res_success = False, res_status = None,
       res_message = Some ''Blood request already fulfilled or expired.'', res_data = NoData \<rparr>"

definition confirmed :: "request \<Rightarrow> response" where
  "confirmed r = \<lparr> res_code = 200, res_success = True, res_status = None,
       res_message = Some ''Donation confirmed successfully.'', res_data = RequestDoc r \<rparr>"

definition confirmDonation :: "nat \<Rightarrow> int \<Rightarrow> store \<Rightarrow> store \<times> response" where
  "confirmDonation requestId now s =
     (case findOneAndUpdate
             (\<lambda>r. rid r = requestId \<and> status r = Active \<and>
                  confirmedUnits r < quantity r \<and> requiredBy r \<ge> now)
             (\<lambda>r. r \<lparr> confirmedUnits := confirmedUnits r + 1 \<rparr>) s of
        (s1, None) \<Rightarrow> (s1, alreadyClosed)
      | (s1, Some updatedRequest) \<Rightarrow>
          if confirmedUnits updatedRequest \<ge> quantity updatedRequest
          then (save (updatedRequest \<lparr> status := Fulfilled \<rparr>) s1,
                confirmed (updatedRequest \<lparr> status := Fulfilled \<rparr>))
          else (s1, confirmed updatedRequest))"

section \<open>Batch scheduler\<close>

text \<open>
  One run of \<open>checkPendingBatches\<close>. \<open>dbReady\<close> is \<open>mongoose.connection.readyState = 1\<close>,
  \<open>now\<close> is \<open>Date.now()\<close> taken once before the loop, and \<open>clock i\<close> is the later
  \<open>new Date()\<close> of the \<open>sendNextBatch\<close> call for request \<open>i\<close>. The loop runs over the
  documents the query returned; \<open>elapsedMinutes\<close> is the quotient the source computes.
  The second component lists the ids \<open>sendNextBatch\<close> was invoked on, in order.
  \<open>sendNextBatch\<close> is the one of the controller module the server loads, the module whose
  \<open>confirmDonation\<close> the public routes use; the older copy does the same on every request
  that is not expired.
\<close>

definition scanFilter :: "request \<Rightarrow> bool" where
  "scanFilter r = (status r = Pending \<and> batchInProgress r = True \<and> confirmedUnits r < quantity r)"

definition elapsedMinutes :: "int \<Rightarrow> int \<Rightarrow> real" where
  "elapsedMinutes now sentTime = real_of_int (now - sentTime) / (1000 * 60)"

definition advance :: "int \<Rightarrow> (nat \<Rightarrow> int) \<Rightarrow> store \<times> nat list \<Rightarrow> request \<Rightarrow> store \<times> nat list" where
  "advance now clock acc request =
     (case batchSentAt request of
        None \<Rightarrow> acc
      | Some sentTime \<Rightarrow>
          let windowMinutes = (if responseWindow request = 0 then 2 else responseWindow request)
          in if elapsedMinutes now sentTime \<ge> real windowMinutes
             then (fst (sendNextBatch (rid request) (clock (rid request))
                          (save (request \<lparr> batchInProgress := False \<rparr>) (fst acc))),
                   snd acc @ [rid request])
             else acc)"

definition checkPendingBatches :: "bool \<Rightarrow> int \<Rightarrow> (nat \<Rightarrow> int) \<Rightarrow> store \<Rightarrow> store \<times> nat list" where
  "checkPendingBatches dbReady now clock s =
     (if \<not> dbReady then (s, [])
      else let pendingRequests = filter scanFilter s
           in foldl (advance now clock) (s, []) pendingRequests)"

section \<open>Donor eligibility filter and request creation\<close>

text \<open>
  \<open>replace(/\s+/g, '')\<close> and \<open>toUpperCase()\<close>, read on ASCII strings: the white space
  is space, tab, line feed, vertical tab, form feed and carriage return, and the letters
  \<open>a\<close> to \<open>z\<close> are the ones with an upper case.
\<close>

definition isWhitespace :: "char \<Rightarrow> bool" where
  "isWhitespace c = (c \<in> set [CHR '' '', CHR 0x09, CHR 0x0A, CHR 0x0B, CHR 0x0C, CHR 0x0D])"

definition replaceWhitespace :: "string \<Rightarrow> string" where
  "replaceWhitespace str = filter (\<lambda>c. \<not> isWhitespace c) str"

definition toUpperCaseChar :: "char \<Rightarrow> char" where
  "toUpperCaseChar c =
     (let n = (of_char c :: nat) in if 97 \<le> n \<and> n \<le> 122 then char_of (n - 32) else c)"

definition toUpperCase :: "string \<Rightarrow> string" where
  "toUpperCase str = map toUpperCaseChar str"

text \<open>Truthiness of an optional string: absent and the empty string are falsy.\<close>

definition truthy :: "string option \<Rightarrow> bool" where
  "truthy v = (case v of None \<Rightarrow> False | Some str \<Rightarrow> str \<noteq> [])"

text \<open>\<open>donor.bloodGroup || donor["Blood Group"]\<close>.\<close>

definition donorBloodGroup :: "donor \<Rightarrow> string option" where
  "donorBloodGroup donor =
     (if truthy (d_bloodGroup donor) then d_bloodGroup donor else d_Blood_Group donor)"

text \<open>
  \<open>donorBloodGroup ? donorBloodGroup.replace(/\s+/g, '').toUpperCase() : ''\<close>.
\<close>

definition normalizedDonor :: "donor \<Rightarrow> string" where
  "normalizedDonor donor =
     (case donorBloodGroup donor of
        None \<Rightarrow> []
      | Some str \<Rightarrow> if str \<noteq> [] then toUpperCase (replaceWhitespace str) else [])"

text \<open>
  The callback of \<open>allDonors.filter\<close>. \<open>threeMonthsAgo\<close> is the date the callback
  computes with \<open>setMonth(getMonth() - 3)\<close> from the current date.
\<close>

definition matches :: "string \<Rightarrow> int \<Rightarrow> donor \<Rightarrow> bool" where
  "matches bloodGroup' threeMonthsAgo donor =
     (if (case d_lastDonationDate donor of
            None \<Rightarrow> False
          | Some lastDonation \<Rightarrow> lastDonation > threeMonthsAgo)
      then False
      else let normalizedRequested = toUpperCase (replaceWhitespace bloodGroup')
           in normalizedDonor donor = normalizedRequested)"

text \<open>
  \<open>matchingDonors.sort((a, b) => (a.name || '').localeCompare(b.name || ''))\<close>.
  \<open>localeCompare\<close> compares by the collation of the host's locale, which the sources do
  not fix: it is the parameter \<open>collation\<close>, the key that the comparison orders by.
  The sort of the array is stable.
\<close>

definition displayName :: "donor \<Rightarrow> string" where
  "displayName d = (case d_name d of None \<Rightarrow> [] | Some str \<Rightarrow> str)"

definition matchingDonors ::
  "(string \<Rightarrow> 'k::linorder) \<Rightarrow> string \<Rightarrow> int \<Rightarrow> donor list \<Rightarrow> donor list" where
  "matchingDonors collation bloodGroup' threeMonthsAgo allDonors =
     sort_key (\<lambda>d. collation (displayName d))
       (filter (matches bloodGroup' threeMonthsAgo) allDonors)"

definition donorIds ::
  "(string \<Rightarrow> 'k::linorder) \<Rightarrow> string \<Rightarrow> int \<Rightarrow> donor list \<Rightarrow> nat list" where
  "donorIds collation bloodGroup' threeMonthsAgo allDonors =
     map d_id (matchingDonors collation bloodGroup' threeMonthsAgo allDonors)"

text \<open>
  The schema of \<open>models/BloodRequest.js\<close>: the enums, the minimum of \<open>quantity\<close> and
  the default of \<open>status\<close>, and the validation that \<open>save\<close> runs on a new document.
\<close>

definition bloodGroup_enum :: "string list" where
  "bloodGroup_enum = [''A+'', ''A-'', ''B+'', ''B-'', ''AB+'', ''AB-'', ''O+'', ''O-'']"

definition urgency_enum :: "string list" where
  "urgency_enum = [''low'', ''medium'', ''high'', ''pregnancy'']"

definition status_enum :: "status list" where
  "status_enum = [Pending, Fulfilled, Cancelled]"

definition status_default :: status where
  "status_default = Pending"

definition validate :: "request \<Rightarrow> bool" where
  "validate r = (bloodGroup r \<in> set bloodGroup_enum \<and> 1 \<le> quantity r \<and>
                 urgency r \<in> set urgency_enum \<and> status r \<in> set status_enum)"

text \<open>
  \<open>new BloodRequest({...})\<close> followed by the assignment of the queue, in the controller
  with \<open>confirmDonation\<close> (it passes \<open>status: 'active'\<close>) and in the older copy (it passes
  no status, so the schema's default applies). \<open>newId\<close> is the \<open>_id\<close> the driver
  generates.
\<close>

definition newBloodRequest ::
  "(string \<Rightarrow> 'k::linorder) \<Rightarrow> nat \<Rightarrow> nat \<Rightarrow> string \<Rightarrow> nat \<Rightarrow> string \<Rightarrow> int \<Rightarrow>
   donor list \<Rightarrow> int \<Rightarrow> request" where
  "newBloodRequest collation newId hospital bloodGroup' quantity' urgency' requiredBy'
       allDonors threeMonthsAgo =
     \<lparr> rid = newId, hospitalId = hospital, bloodGroup = bloodGroup', quantity = quantity',
       urgency = urgency', requiredBy = requiredBy', status = Active, confirmedUnits = 0,
       batchSize = 1, notifiedDonors = [],
       remainingDonorsQueue = donorIds collation bloodGroup' threeMonthsAgo allDonors,
       batchSentAt = None, responseWindow = 2, batchInProgress = False \<rparr>"

definition newBloodRequest_legacy ::
  "(string \<Rightarrow> 'k::linorder) \<Rightarrow> nat \<Rightarrow> nat \<Rightarrow> string \<Rightarrow> nat \<Rightarrow> string \<Rightarrow> int \<Rightarrow>
   donor list \<Rightarrow> int \<Rightarrow> request" where
  "newBloodRequest_legacy collation newId hospital bloodGroup' quantity' urgency' requiredBy'
       allDonors threeMonthsAgo =
     \<lparr> rid = newId, hospitalId = hospital, bloodGroup = bloodGroup', quantity = quantity',
       urgency = urgency', requiredBy = requiredBy', status = status_default,
       confirmedUnits = 0, batchSize = 1, notifiedDonors = [],
       remainingDonorsQueue = donorIds collation bloodGroup' threeMonthsAgo allDonors,
       batchSentAt = None, responseWindow = 2, batchInProgress = False \<rparr>"

definition created :: "nat \<Rightarrow> response" where
  "created i = \<lparr> res_code = 201, res_success = True, res_status = None,
                 res_message = None, res_data = RequestId i \<rparr>"

definition failed :: response where
  "failed = \<lparr> res_code = 500, res_success = False, res_status = None,
              res_message = None, res_data = NoData \<rparr>"

text \<open>
  \<open>createBloodRequest\<close>: the document is built, saved (a validation error makes the
  handler answer 500 with nothing stored) and the first batch is dispatched. The schema's
  validation is the parameter \<open>valid\<close>. The saves of the other handlers are taken as
  accepted: they write \<open>'fulfilled'\<close>, which the enum holds, the two lists, the batch
  fields, or \<open>'expired'\<close> on a request that is \<open>'active'\<close>, which only a schema with the
  controller's own status names lets exist. Failures of the database itself are not
  modelled.
\<close>

definition createBloodRequest ::
  "(request \<Rightarrow> bool) \<Rightarrow> request \<Rightarrow> int \<Rightarrow> store \<Rightarrow> store \<times> response \<times> nat list" where
  "createBloodRequest valid bloodRequest now s =
     (if \<not> valid bloodRequest then (s, failed, [])
      else case sendNextBatch (rid bloodRequest) now (s @ [bloodRequest]) of
             (s', batch) \<Rightarrow> (s', created (rid bloodRequest), batch))"

section \<open>Histories of operations\<close>

text \<open>
  The operations that write to a stored request, and their runs one after the other.
\<close>

datatype op =
    SendNextBatch nat int
  | GetBloodRequestById nat int
  | ConfirmDonation nat int
  | CheckPendingBatches bool int "nat \<Rightarrow> int"

fun exec :: "op \<Rightarrow> store \<Rightarrow> store" where
  "exec (SendNextBatch i now) s = fst (sendNextBatch i now s)"
| "exec (GetBloodRequestById i now) s = fst (getBloodRequestById i now s)"
| "exec (ConfirmDonation i now) s = fst (confirmDonation i now s)"
| "exec (CheckPendingBatches dbReady now clock) s = fst (checkPendingBatches dbReady now clock s)"

definition run :: "op list \<Rightarrow> store \<Rightarrow> store" where
  "run ops s = fold exec ops s"

text \<open>A run of \<open>confirmDonation\<close> calls on one request, with the responses.\<close>

fun confirmAll :: "nat \<Rightarrow> int list \<Rightarrow> store \<Rightarrow> store \<times> response list" where
  "confirmAll i [] s = (s, [])"
| "confirmAll i (now # nows) s =
     (case confirmDonation i now s of
        (s1, res) \<Rightarrow> (case confirmAll i nows s1 of (s2, ress) \<Rightarrow> (s2, res # ress)))"

text \<open>A request and a donor directory to evaluate the operations on.\<close>

definition request0 :: request where
  "request0 = \<lparr> rid = 1, hospitalId = 7, bloodGroup = ''O+'', quantity = 2,
       urgency = ''high'', requiredBy = 1000000, status = Active, confirmedUnits = 0,
       batchSize = 1, notifiedDonors = [], remainingDonorsQueue = [11, 12, 13],
       batchSentAt = None, responseWindow = 2, batchInProgress = False \<rparr>"

definition donors0 :: "donor list" where
  "donors0 =
     [\<lparr> d_id = 21, d_name = Some ''Test Recent'', d_bloodGroup = Some ''O+'',
        d_Blood_Group = None, d_lastDonationDate = Some 900 \<rparr>,
      \<lparr> d_id = 22, d_name = Some ''Test New'', d_bloodGroup = Some ''o +'',
        d_Blood_Group = None, d_lastDonationDate = None \<rparr>,
      \<lparr> d_id = 23, d_name = Some ''Test Eligible'', d_bloodGroup = None,
        d_Blood_Group = Some ''O+'', d_lastDonationDate = Some 100 \<rparr>,
      \<lparr> d_id = 24, d_name = None, d_bloodGroup = Some ''A+'',
        d_Blood_Group = None, d_lastDonationDate = None \<rparr>]"

text \<open>
  The test of the scheduler's loop on one scanned request, as a predicate: \<open>batchSentAt\<close>
  is set and the minutes elapsed since then have reached the response window.
\<close>

definition windowElapsed :: "int \<Rightarrow> request \<Rightarrow> bool" where
  "windowElapsed now request =
     (case batchSentAt request of
        None \<Rightarrow> False
      | Some sentTime \<Rightarrow>
          elapsedMinutes now sentTime
            \<ge> real (if responseWindow request = 0 then 2 else responseWindow request))"

text \<open>
  What the operations may change in a stored request: the id, the quantity, the deadline
  and the donors (notified followed by queued) stay, the confirmed units do not decrease
  and do not pass a quantity they were within, and a status other than active stays.
\<close>

definition evolves :: "request \<Rightarrow> request \<Rightarrow> bool" where
  "evolves r r' =
     (rid r' = rid r \<and> quantity r' = quantity r \<and> requiredBy r' = requiredBy r \<and>
      notifiedDonors r' @ remainingDonorsQueue r' = notifiedDonors r @ remainingDonorsQueue r \<and>
      confirmedUnits r \<le> confirmedUnits r' \<and>
      (confirmedUnits r \<le> quantity r \<longrightarrow> confirmedUnits r' \<le> quantity r) \<and>
      (status r \<noteq> Active \<longrightarrow> status r' = status r))"

definition created0 :: request where
  "created0 = newBloodRequest (\<lambda>str. str) 1 7 ''O+'' 2 ''high'' 1000000 donors0 500"

section \<open>Facts about the collection\<close>

lemma findById_Nil [simp]: "findById i [] = None"
  by (simp add: findById_def)

lemma findById_Cons [simp]:
  "findById i (r # rs) = (if rid r = i then Some r else findById i rs)"
  by (simp add: findById_def)

lemma findById_SomeD: "findById i s = Some r \<Longrightarrow> r \<in> set s \<and> rid r = i"
  by (induction s) (auto split: if_splits)

lemma findById_None_iff: "findById i s = None \<longleftrightarrow> i \<notin> rid ` set s"
  by (induction s) auto

lemma findById_distinct:
  "distinct (map rid s) \<Longrightarrow> r \<in> set s \<Longrightarrow> findById (rid r) s = Some r"
  by (induction s) (auto simp: rev_image_eqI)

lemma map_rid_updateOne:
  "(\<And>r. q r \<Longrightarrow> rid (f r) = rid r) \<Longrightarrow> map rid (updateOne q f s) = map rid s"
  by (induction s) auto

lemma map_rid_save [simp]: "map rid (save d s) = map rid s"
  by (induction s) (auto simp: save_def)

lemma findById_save_same:
  "findById (rid d) (save d s) = (case findById (rid d) s of None \<Rightarrow> None | Some _ \<Rightarrow> Some d)"
  by (induction s) (auto simp: save_def)

lemma findById_save_other:
  "j \<noteq> rid d \<Longrightarrow> findById j (save d s) = findById j s"
  by (induction s) (auto simp: save_def)

lemma save_absent: "findById (rid d) s = None \<Longrightarrow> save d s = s"
  by (induction s) (auto simp: save_def split: if_splits)

lemma find_id_pred:
  "distinct (map rid s) \<Longrightarrow>
   find (\<lambda>r. rid r = i \<and> p r) s =
     (case findById i s of None \<Rightarrow> None | Some r \<Rightarrow> if p r then Some r else None)"
proof (induction s)
  case Nil
  then show ?case by simp
next
  case (Cons a s)
  show ?case
  proof (cases "rid a = i")
    case True
    with Cons.prems have "i \<notin> rid ` set s" by auto
    then have "find (\<lambda>r. rid r = i \<and> p r) s = None"
      by (auto simp: find_None_iff)
    with True show ?thesis by simp
  next
    case False
    with Cons show ?thesis by simp
  qed
qed

lemma updateOne_id_pred:
  "findById i s = Some r \<Longrightarrow> p r \<Longrightarrow>
   updateOne (\<lambda>r. rid r = i \<and> p r) f s = updateOne (\<lambda>r. rid r = i) f s"
  by (induction s) (auto split: if_splits)


lemma updateOne_by_id_save:
  "findById i s = Some r \<Longrightarrow> rid d = i \<Longrightarrow> f r = d \<Longrightarrow>
   updateOne (\<lambda>r. rid r = i) f s = save d s"
  by (induction s) (auto simp: save_def split: if_splits)

lemma save_save: "rid d' = rid d \<Longrightarrow> save d' (save d s) = save d' s"
  by (induction s) (auto simp: save_def)

lemma findOneAndUpdate_by_id:
  assumes "distinct (map rid s)" and "\<And>r. rid (f r) = rid r"
  shows "findOneAndUpdate (\<lambda>r. rid r = i \<and> p r) f s =
     (case findById i s of
        None \<Rightarrow> (s, None)
      | Some r \<Rightarrow> if p r then (save (f r) s, Some (f r)) else (s, None))"
proof (cases "findById i s")
  case None
  then show ?thesis
    by (simp add: findOneAndUpdate_def find_id_pred [OF assms(1)])
next
  case (Some r)
  then have i: "rid r = i" by (simp add: findById_SomeD)
  show ?thesis
  proof (cases "p r")
    case True
    have "updateOne (\<lambda>r. rid r = i \<and> p r) f s = save (f r) s"
      using updateOne_id_pred [of i s r p f, OF Some True] updateOne_by_id_save [OF Some, of "f r" f] i assms(2)
      by simp
    with Some True show ?thesis
      by (simp add: findOneAndUpdate_def find_id_pred [OF assms(1)])
  next
    case False
    with Some show ?thesis
      by (simp add: findOneAndUpdate_def find_id_pred [OF assms(1)])
  qed
qed

lemma status_update_same: "status r = st \<Longrightarrow> r \<lparr> status := st \<rparr> = r"
  by (cases r) auto

lemma confirmDonation_unfold:
  assumes "distinct (map rid s)"
  shows "confirmDonation i now s =
     (case findById i s of
        None \<Rightarrow> (s, alreadyClosed)
      | Some r \<Rightarrow>
          if status r = Active \<and> confirmedUnits r < quantity r \<and> now \<le> requiredBy r
          then (save (r \<lparr> confirmedUnits := confirmedUnits r + 1,
                          status := (if quantity r \<le> confirmedUnits r + 1 then Fulfilled else status r) \<rparr>) s,
                confirmed (r \<lparr> confirmedUnits := confirmedUnits r + 1,
                          status := (if quantity r \<le> confirmedUnits r + 1 then Fulfilled else status r) \<rparr>))
          else (s, alreadyClosed))"
  unfolding confirmDonation_def
  by (subst findOneAndUpdate_by_id [OF assms])
     (auto simp: save_save status_update_same split: option.splits)


section \<open>Confirmation coordinator: the conditional increment\<close>

text \<open>
  Claim C1. In a collection with unique ids, \<open>confirmDonation\<close> adds exactly 1 to the
  request's \<open>confirmedUnits\<close> when, at the update, the request is active, under its
  quantity and not past \<open>requiredBy\<close>, and then answers 200 with the updated document,
  whose status is fulfilled when the count has reached the quantity; every other request
  is left as it was. In every other case (also when no request has the id) the collection
  is unchanged and the answer is the 400 "Blood request already fulfilled or expired.",
  with \<open>success\<close> false. The update is one step of the model: the filter is evaluated on
  the stored document by \<open>findOneAndUpdate\<close> itself.
\<close>

theorem confirmDonation_conditional_increment:
  assumes "distinct (map rid s)"
  shows "case findById i s of
           None \<Rightarrow>
             confirmDonation i now s =
               (s, \<lparr> res_code = 400, res_success = False, res_status = None,
                     res_message = Some ''Blood request already fulfilled or expired.'',
                     res_data = NoData \<rparr>)
         | Some r \<Rightarrow>
             if status r = Active \<and> confirmedUnits r < quantity r \<and> now \<le> requiredBy r
             then findById i (fst (confirmDonation i now s)) =
                    Some (r \<lparr> confirmedUnits := confirmedUnits r + 1,
                              status := (if quantity r \<le> confirmedUnits r + 1
                                         then Fulfilled else Active) \<rparr>)
                  \<and> (\<forall>j. j \<noteq> i \<longrightarrow> findById j (fst (confirmDonation i now s)) = findById j s)
                  \<and> res_code (snd (confirmDonation i now s)) = 200
                  \<and> res_success (snd (confirmDonation i now s)) = True
                  \<and> res_data (snd (confirmDonation i now s)) =
                      RequestDoc (r \<lparr> confirmedUnits := confirmedUnits r + 1,
                                      status := (if quantity r \<le> confirmedUnits r + 1
                                                 then Fulfilled else Active) \<rparr>)
             else confirmDonation i now s =
                    (s, \<lparr> res_code = 400, res_success = False, res_status = None,
                          res_message = Some ''Blood request already fulfilled or expired.'',
                          res_data = NoData \<rparr>)"
proof (cases "findById i s")
  case None
  then show ?thesis
    by (simp add: confirmDonation_unfold [OF assms] alreadyClosed_def)
next
  case (Some r)
  then have i: "rid r = i" by (simp add: findById_SomeD)
  show ?thesis
  proof (cases "status r = Active \<and> confirmedUnits r < quantity r \<and> now \<le> requiredBy r")
    case True
    let ?r' = "r \<lparr> confirmedUnits := confirmedUnits r + 1,
                    status := (if quantity r \<le> confirmedUnits r + 1 then Fulfilled else status r) \<rparr>"
    have c: "confirmDonation i now s = (save ?r' s, confirmed ?r')"
      using Some True by (simp add: confirmDonation_unfold [OF assms])
    have r': "rid ?r' = i" using i by simp
    have 1: "findById i (save ?r' s) = Some ?r'"
      using findById_save_same [of ?r' s] Some r' by simp
    have 2: "\<forall>j. j \<noteq> i \<longrightarrow> findById j (save ?r' s) = findById j s"
      using findById_save_other [of _ ?r' s] r' by simp
    from True have st: "status r = Active" by simp
    show ?thesis
      using Some True 1 2 unfolding c
      by (simp add: confirmed_def st)
  next
    case False
    with Some show ?thesis
      by (auto simp add: confirmDonation_unfold [OF assms] alreadyClosed_def)
  qed
qed

theorem confirmDonation_conditional_increment_witness:
  "distinct (map rid [request0, request0 \<lparr> rid := 2, confirmedUnits := 1 \<rparr>])
   \<and> findById 1 (fst (confirmDonation 1 5 [request0, request0 \<lparr> rid := 2, confirmedUnits := 1 \<rparr>]))
       = Some (request0 \<lparr> confirmedUnits := 1 \<rparr>)
   \<and> findById 2 (fst (confirmDonation 2 5 [request0, request0 \<lparr> rid := 2, confirmedUnits := 1 \<rparr>]))
       = Some (request0 \<lparr> rid := 2, confirmedUnits := 2, status := Fulfilled \<rparr>)
   \<and> confirmDonation 1 1000001 [request0, request0 \<lparr> rid := 2, confirmedUnits := 1 \<rparr>]
       = ([request0, request0 \<lparr> rid := 2, confirmedUnits := 1 \<rparr>], alreadyClosed)"
  using confirmDonation_conditional_increment
          [of "[request0, request0 \<lparr> rid := 2, confirmedUnits := 1 \<rparr>]" 1 5]
        confirmDonation_conditional_increment
          [of "[request0, request0 \<lparr> rid := 2, confirmedUnits := 1 \<rparr>]" 2 5]
        confirmDonation_conditional_increment
          [of "[request0, request0 \<lparr> rid := 2, confirmedUnits := 1 \<rparr>]" 1 1000001]
  by (simp add: request0_def alreadyClosed_def)

section \<open>Dispatcher\<close>

lemma sendNextBatch_dequeue:
  assumes "findById i s = Some r"
    and "status r \<noteq> Fulfilled" "status r \<noteq> Cancelled" "status r \<noteq> Expired"
    and "remainingDonorsQueue r \<noteq> []"
  shows "sendNextBatch i now s =
     (save (r \<lparr> remainingDonorsQueue :=
                   drop (if batchSize r = 0 then 1 else batchSize r) (remainingDonorsQueue r),
                 notifiedDonors := notifiedDonors r @
                   take (if batchSize r = 0 then 1 else batchSize r) (remainingDonorsQueue r),
                 batchSentAt := Some now, batchInProgress := True \<rparr>) s,
      take (if batchSize r = 0 then 1 else batchSize r) (remainingDonorsQueue r))"
  using assms by (simp add: sendNextBatch_def Let_def)

lemma sendNextBatch_skip:
  assumes "findById i s = None \<or>
           (\<exists>r. findById i s = Some r \<and>
                (status r = Fulfilled \<or> status r = Cancelled \<or> status r = Expired \<or>
                 remainingDonorsQueue r = []))"
  shows "sendNextBatch i now s = (s, [])"
  using assms by (auto simp: sendNextBatch_def)

text \<open>
  Claim C7. \<open>sendNextBatch\<close> returns the collection as it was, with no donor to notify,
  whenever no request has the id, or the request's status is fulfilled, cancelled or
  expired, or its \<open>remainingDonorsQueue\<close> is empty.
\<close>

theorem sendNextBatch_guard:
  assumes "findById i s = None \<or>
           (\<exists>r. findById i s = Some r \<and>
                (status r = Fulfilled \<or> status r = Cancelled \<or> status r = Expired \<or>
                 remainingDonorsQueue r = []))"
  shows "sendNextBatch i now s = (s, [])"
  using assms by (auto simp: sendNextBatch_def)

theorem sendNextBatch_guard_witness:
  "findById 2 [request0] = None
   \<and> sendNextBatch 2 50 [request0] = ([request0], [])
   \<and> findById 1 [request0 \<lparr> status := Expired \<rparr>] = Some (request0 \<lparr> status := Expired \<rparr>)
   \<and> sendNextBatch 1 50 [request0 \<lparr> status := Expired \<rparr>] = ([request0 \<lparr> status := Expired \<rparr>], [])
   \<and> sendNextBatch 1 50 [request0 \<lparr> status := Fulfilled \<rparr>] = ([request0 \<lparr> status := Fulfilled \<rparr>], [])
   \<and> sendNextBatch 1 50 [request0 \<lparr> status := Cancelled \<rparr>] = ([request0 \<lparr> status := Cancelled \<rparr>], [])
   \<and> sendNextBatch 1 50 [request0 \<lparr> remainingDonorsQueue := [] \<rparr>]
       = ([request0 \<lparr> remainingDonorsQueue := [] \<rparr>], [])"
  using sendNextBatch_guard [of 2 "[request0]" 50]
        sendNextBatch_guard [of 1 "[request0 \<lparr> status := Expired \<rparr>]" 50]
        sendNextBatch_guard [of 1 "[request0 \<lparr> status := Fulfilled \<rparr>]" 50]
        sendNextBatch_guard [of 1 "[request0 \<lparr> status := Cancelled \<rparr>]" 50]
        sendNextBatch_guard [of 1 "[request0 \<lparr> remainingDonorsQueue := [] \<rparr>]" 50]
  by (simp add: request0_def)

lemma sendNextBatch_legacy_agrees:
  "(\<And>r. findById i s = Some r \<Longrightarrow> status r \<noteq> Expired) \<Longrightarrow>
   sendNextBatch_legacy i now s = sendNextBatch i now s"
  by (auto simp: sendNextBatch_def sendNextBatch_legacy_def split: option.splits)

lemma sendNextBatch_legacy_guard:
  assumes "findById i s = None \<or>
           (\<exists>r. findById i s = Some r \<and>
                (status r = Fulfilled \<or> status r = Cancelled \<or> remainingDonorsQueue r = []))"
  shows "sendNextBatch_legacy i now s = (s, [])"
  using assms by (auto simp: sendNextBatch_legacy_def)

section \<open>What one operation may change in a request\<close>

lemma evolves_refl [simp]: "evolves r r"
  by (simp add: evolves_def)

lemma evolves_trans: "evolves a b \<Longrightarrow> evolves b c \<Longrightarrow> evolves a c"
  by (auto simp: evolves_def)

lemma all_evolves_refl [simp]: "list_all2 evolves s s"
  by (simp add: list_all2_refl)

lemma all_evolves_trans:
  "list_all2 evolves s t \<Longrightarrow> list_all2 evolves t u \<Longrightarrow> list_all2 evolves s u"
  by (rule list_all2_trans [of evolves evolves evolves]) (auto intro: evolves_trans)

lemma all_evolves_rid: "list_all2 evolves s s' \<Longrightarrow> map rid s' = map rid s"
  by (induction rule: list_all2_induct) (auto simp: evolves_def)

lemma all_evolves_save:
  "findById (rid d) s = Some r \<Longrightarrow> evolves r d \<Longrightarrow> list_all2 evolves s (save d s)"
  by (induction s) (auto simp: save_def split: if_splits)

lemma all_evolves_findById:
  "list_all2 evolves s s' \<Longrightarrow> findById i s = Some r \<Longrightarrow>
   \<exists>r'. findById i s' = Some r' \<and> evolves r r'"
  by (induction arbitrary: r rule: list_all2_induct) (auto simp: evolves_def split: if_splits)

lemma sendNextBatch_evolves: "list_all2 evolves s (fst (sendNextBatch i now s))"
proof (cases "findById i s")
  case None
  then show ?thesis by (simp add: sendNextBatch_def)
next
  case (Some r)
  then have "rid r = i" by (simp add: findById_SomeD)
  with Some show ?thesis
    by (auto simp: sendNextBatch_def Let_def evolves_def intro!: all_evolves_save)
qed

lemma getBloodRequestById_evolves: "list_all2 evolves s (fst (getBloodRequestById i now s))"
proof (cases "findById i s")
  case None
  then show ?thesis by (simp add: getBloodRequestById_def)
next
  case (Some r)
  then have "rid r = i" by (simp add: findById_SomeD)
  with Some show ?thesis
    by (auto simp: getBloodRequestById_def Let_def evolves_def intro!: all_evolves_save)
qed

lemma confirmDonation_evolves:
  assumes "distinct (map rid s)"
  shows "list_all2 evolves s (fst (confirmDonation i now s))"
proof (cases "findById i s")
  case None
  then show ?thesis by (simp add: confirmDonation_unfold [OF assms])
next
  case (Some r)
  then have "rid r = i" by (simp add: findById_SomeD)
  with Some show ?thesis
    by (auto simp: confirmDonation_unfold [OF assms] evolves_def intro!: all_evolves_save)
qed


section \<open>Scheduler\<close>

lemma sendNextBatch_other:
  "j \<noteq> i \<Longrightarrow> findById j (fst (sendNextBatch i now s)) = findById j s"
proof (cases "findById i s")
  case None
  then show ?thesis by (simp add: sendNextBatch_def)
next
  case (Some r)
  assume "j \<noteq> i"
  moreover from Some have "rid r = i" by (simp add: findById_SomeD)
  ultimately show ?thesis using Some
    by (auto simp: sendNextBatch_def Let_def findById_save_other)
qed

lemma advance_evolves:
  assumes "findById (rid q) st = Some q"
  shows "list_all2 evolves st (fst (advance now clock (st, lg) q))"
proof (cases "batchSentAt q")
  case None
  then show ?thesis by (simp add: advance_def)
next
  case (Some sentTime)
  have "evolves q (q \<lparr> batchInProgress := False \<rparr>)"
    by (simp add: evolves_def)
  then have "list_all2 evolves st (save (q \<lparr> batchInProgress := False \<rparr>) st)"
    using assms all_evolves_save [of "q \<lparr> batchInProgress := False \<rparr>" st q] by simp
  then have "list_all2 evolves st
      (fst (sendNextBatch (rid q) (clock (rid q)) (save (q \<lparr> batchInProgress := False \<rparr>) st)))"
    by (rule all_evolves_trans) (rule sendNextBatch_evolves)
  with Some show ?thesis by (simp add: advance_def Let_def)
qed

lemma advance_other:
  "j \<noteq> rid q \<Longrightarrow> findById j (fst (advance now clock acc q)) = findById j (fst acc)"
  by (auto simp: advance_def Let_def sendNextBatch_other findById_save_other split: option.splits)

lemma advance_log_other:
  "j \<noteq> rid q \<Longrightarrow> j \<in> set (snd (advance now clock acc q)) \<longleftrightarrow> j \<in> set (snd acc)"
  by (auto simp: advance_def Let_def split: option.splits)

lemma advance_windowElapsed:
  "advance now clock acc q =
     (if windowElapsed now q
      then (fst (sendNextBatch (rid q) (clock (rid q))
                   (save (q \<lparr> batchInProgress := False \<rparr>) (fst acc))),
            snd acc @ [rid q])
      else acc)"
  by (simp add: advance_def windowElapsed_def Let_def split: option.splits)

lemma advance_skip: "\<not> windowElapsed now q \<Longrightarrow> advance now clock acc q = acc"
  by (simp add: advance_windowElapsed)

lemma windowElapsed_unset: "batchSentAt q = None \<Longrightarrow> \<not> windowElapsed now q"
  by (simp add: windowElapsed_def)

lemma foldl_advance_log:
  "snd (foldl (advance now clock) acc reqs) = snd acc @ map rid (filter (windowElapsed now) reqs)"
  by (induction reqs arbitrary: acc) (simp_all add: advance_windowElapsed)

lemma foldl_advance_evolves:
  "distinct (map rid reqs) \<Longrightarrow> (\<forall>q\<in>set reqs. findById (rid q) st = Some q) \<Longrightarrow>
   list_all2 evolves st (fst (foldl (advance now clock) (st, lg) reqs))"
proof (induction reqs arbitrary: st lg)
  case Nil
  then show ?case by simp
next
  case (Cons q reqs)
  obtain st' lg' where a: "advance now clock (st, lg) q = (st', lg')"
    by (cases "advance now clock (st, lg) q")
  have 1: "list_all2 evolves st st'"
    using advance_evolves [of q st now clock lg] Cons.prems(2) a by simp
  have "\<forall>x\<in>set reqs. findById (rid x) st' = Some x"
  proof
    fix x assume x: "x \<in> set reqs"
    with Cons.prems(1) have "rid x \<noteq> rid q" by (auto simp: image_iff)
    then have "findById (rid x) st' = findById (rid x) st"
      using advance_other [of "rid x" q now clock "(st, lg)"] a by simp
    with Cons.prems(2) x show "findById (rid x) st' = Some x" by simp
  qed
  with Cons.prems(1) have "list_all2 evolves st' (fst (foldl (advance now clock) (st', lg') reqs))"
    by (intro Cons.IH) simp_all
  with 1 a show ?case by (simp add: all_evolves_trans)
qed

lemma checkPendingBatches_evolves:
  assumes "distinct (map rid s)"
  shows "list_all2 evolves s (fst (checkPendingBatches dbReady now clock s))"
proof (cases dbReady)
  case False
  then show ?thesis by (simp add: checkPendingBatches_def)
next
  case True
  have "distinct (map rid (filter scanFilter s))"
    using assms by (rule distinct_map_filter)
  moreover have "\<forall>q\<in>set (filter scanFilter s). findById (rid q) s = Some q"
    using assms by (simp add: findById_distinct)
  ultimately show ?thesis
    using True by (simp add: checkPendingBatches_def foldl_advance_evolves)
qed

lemma foldl_advance_untouched:
  "(\<forall>q\<in>set reqs. rid q = j \<longrightarrow> \<not> windowElapsed now q) \<Longrightarrow>
   findById j (fst (foldl (advance now clock) acc reqs)) = findById j (fst acc) \<and>
   (j \<in> set (snd (foldl (advance now clock) acc reqs)) \<longleftrightarrow> j \<in> set (snd acc))"
proof (induction reqs arbitrary: acc)
  case Nil
  then show ?case by simp
next
  case (Cons q reqs)
  have step: "findById j (fst (advance now clock acc q)) = findById j (fst acc) \<and>
        (j \<in> set (snd (advance now clock acc q)) \<longleftrightarrow> j \<in> set (snd acc))"
  proof (cases "rid q = j")
    case True
    with Cons.prems have "\<not> windowElapsed now q" by simp
    then show ?thesis by (simp add: advance_skip)
  next
    case False
    then show ?thesis
      using advance_other [of j q now clock acc] advance_log_other [of j q now clock acc] by auto
  qed
  from Cons.prems have "\<forall>q\<in>set reqs. rid q = j \<longrightarrow> \<not> windowElapsed now q" by simp
  from Cons.IH [OF this, of "advance now clock acc q"] step show ?case by simp
qed

lemma foldl_advance_not_due:
  assumes "distinct (map rid s)" and "r \<in> set s" and "\<not> (scanFilter r \<and> windowElapsed now r)"
  shows "findById (rid r) (fst (foldl (advance now clock) (s, []) (filter scanFilter s))) = Some r
         \<and> rid r \<notin> set (snd (foldl (advance now clock) (s, []) (filter scanFilter s)))"
proof -
  have "\<forall>q\<in>set (filter scanFilter s). rid q = rid r \<longrightarrow> \<not> windowElapsed now q"
  proof (intro ballI impI)
    fix q assume q: "q \<in> set (filter scanFilter s)" and "rid q = rid r"
    then have "findById (rid r) s = Some q"
      using findById_distinct [OF assms(1), of q] by simp
    with assms(1,2) have "q = r" by (simp add: findById_distinct)
    with q assms(3) show "\<not> windowElapsed now q" by simp
  qed
  from foldl_advance_untouched [OF this, of clock "(s, [])"] assms(1,2)
  show ?thesis by (simp add: findById_distinct)
qed

text \<open>
  Claim C10. In a collection with unique ids, a request whose \<open>batchSentAt\<close> is unset is
  stored unchanged after a run of the scheduler, and \<open>sendNextBatch\<close> is not invoked on
  it. This holds in particular for the requests the scan returns (in progress and under
  quota, with the status the scan asks for), which the loop passes over.
\<close>

theorem checkPendingBatches_unset_batchSentAt:
  assumes "distinct (map rid s)" and "r \<in> set s" and "batchSentAt r = None"
  shows "findById (rid r) (fst (checkPendingBatches dbReady now clock s)) = Some r
         \<and> rid r \<notin> set (snd (checkPendingBatches dbReady now clock s))"
proof (cases dbReady)
  case False
  with assms show ?thesis by (simp add: checkPendingBatches_def findById_distinct)
next
  case True
  from assms(3) have "\<not> (scanFilter r \<and> windowElapsed now r)"
    by (simp add: windowElapsed_unset)
  from foldl_advance_not_due [OF assms(1,2) this, of clock] True
  show ?thesis by (simp add: checkPendingBatches_def)
qed

theorem checkPendingBatches_unset_batchSentAt_witness:
  "distinct (map rid [request0 \<lparr> status := Pending, batchInProgress := True \<rparr>,
                     request0 \<lparr> rid := 2, status := Pending, batchInProgress := True,
                                batchSentAt := Some 0 \<rparr>])
   \<and> scanFilter (request0 \<lparr> status := Pending, batchInProgress := True \<rparr>)
   \<and> batchSentAt (request0 \<lparr> status := Pending, batchInProgress := True \<rparr>) = None
   \<and> findById 1 (fst (checkPendingBatches True 120000 (\<lambda>_. 120001)
          [request0 \<lparr> status := Pending, batchInProgress := True \<rparr>,
           request0 \<lparr> rid := 2, status := Pending, batchInProgress := True,
                      batchSentAt := Some 0 \<rparr>]))
       = Some (request0 \<lparr> status := Pending, batchInProgress := True \<rparr>)
   \<and> snd (checkPendingBatches True 120000 (\<lambda>_. 120001)
          [request0 \<lparr> status := Pending, batchInProgress := True \<rparr>,
           request0 \<lparr> rid := 2, status := Pending, batchInProgress := True,
                      batchSentAt := Some 0 \<rparr>]) = [2]"
  using checkPendingBatches_unset_batchSentAt
    [of "[request0 \<lparr> status := Pending, batchInProgress := True \<rparr>,
          request0 \<lparr> rid := 2, status := Pending, batchInProgress := True,
                     batchSentAt := Some 0 \<rparr>]"
        "request0 \<lparr> status := Pending, batchInProgress := True \<rparr>" True 120000 "\<lambda>_. 120001"]
  by (simp add: request0_def scanFilter_def checkPendingBatches_def advance_def
        elapsedMinutes_def sendNextBatch_def save_def Let_def)

lemma sendNextBatch_local:
  assumes "findById i s = Some r"
  shows "findById i (fst (sendNextBatch i now s)) = findById i (fst (sendNextBatch i now [r]))"
proof -
  from assms have i: "rid r = i" by (simp add: findById_SomeD)
  then have one: "findById i [r] = Some r" by simp
  show ?thesis
  proof (cases "status r = Fulfilled \<or> status r = Cancelled \<or> status r = Expired \<or>
                remainingDonorsQueue r = []")
    case True
    with assms one show ?thesis by (simp add: sendNextBatch_skip)
  next
    case False
    let ?r' = "r \<lparr> remainingDonorsQueue :=
                   drop (if batchSize r = 0 then 1 else batchSize r) (remainingDonorsQueue r),
                 notifiedDonors := notifiedDonors r @
                   take (if batchSize r = 0 then 1 else batchSize r) (remainingDonorsQueue r),
                 batchSentAt := Some now, batchInProgress := True \<rparr>"
    have r': "rid ?r' = i" using i by simp
    have a: "fst (sendNextBatch i now s) = save ?r' s"
      using sendNextBatch_dequeue [OF assms, of now] False by simp
    have b: "fst (sendNextBatch i now [r]) = save ?r' [r]"
      using sendNextBatch_dequeue [OF one, of now] False by simp
    have "findById i (save ?r' s) = Some ?r'"
      using findById_save_same [of ?r' s] assms r' by simp
    moreover have "findById i (save ?r' [r]) = Some ?r'"
      using findById_save_same [of ?r' "[r]"] one r' by simp
    ultimately show ?thesis unfolding a b by simp
  qed
qed

lemma advance_local:
  assumes "findById (rid q) st = Some q" and "windowElapsed now q"
  shows "findById (rid q) (fst (advance now clock (st, lg) q)) =
         findById (rid q) (fst (sendNextBatch (rid q) (clock (rid q))
                                  [q \<lparr> batchInProgress := False \<rparr>]))"
proof -
  have "findById (rid q) (save (q \<lparr> batchInProgress := False \<rparr>) st)
        = Some (q \<lparr> batchInProgress := False \<rparr>)"
    using findById_save_same [of "q \<lparr> batchInProgress := False \<rparr>" st] assms(1) by simp
  from sendNextBatch_local [OF this] assms(2) show ?thesis
    by (simp add: advance_windowElapsed)
qed

lemma foldl_advance_other:
  assumes "\<forall>q\<in>set reqs. rid q \<noteq> j"
  shows "findById j (fst (foldl (advance now clock) acc reqs)) = findById j (fst acc)"
proof -
  from assms have "\<forall>q\<in>set reqs. rid q = j \<longrightarrow> \<not> windowElapsed now q" by simp
  from foldl_advance_untouched [OF this] show ?thesis by simp
qed

lemma foldl_advance_due:
  "distinct (map rid reqs) \<Longrightarrow> (\<forall>q\<in>set reqs. findById (rid q) st = Some q) \<Longrightarrow>
   r \<in> set reqs \<Longrightarrow> windowElapsed now r \<Longrightarrow>
   findById (rid r) (fst (foldl (advance now clock) (st, lg) reqs)) =
   findById (rid r) (fst (sendNextBatch (rid r) (clock (rid r))
                            [r \<lparr> batchInProgress := False \<rparr>]))"
proof (induction reqs arbitrary: st lg)
  case Nil
  then show ?case by simp
next
  case (Cons q reqs)
  obtain st' lg' where a: "advance now clock (st, lg) q = (st', lg')"
    by (cases "advance now clock (st, lg) q")
  show ?case
  proof (cases "q = r")
    case True
    with Cons.prems(1) have "\<forall>x\<in>set reqs. rid x \<noteq> rid r" by (auto simp: image_iff)
    then have "findById (rid r) (fst (foldl (advance now clock) (st', lg') reqs))
               = findById (rid r) st'"
      using foldl_advance_other [of reqs "rid r" now clock "(st', lg')"] by simp
    moreover have "findById (rid r) st' =
        findById (rid r) (fst (sendNextBatch (rid r) (clock (rid r))
                                 [r \<lparr> batchInProgress := False \<rparr>]))"
      using advance_local [of r st now clock lg] Cons.prems(2,4) True a by simp
    ultimately show ?thesis using a True by simp
  next
    case False
    with Cons.prems(3) have r: "r \<in> set reqs" by simp
    have "\<forall>x\<in>set reqs. findById (rid x) st' = Some x"
    proof
      fix x assume x: "x \<in> set reqs"
      with Cons.prems(1) have "rid x \<noteq> rid q" by (auto simp: image_iff)
      then have "findById (rid x) st' = findById (rid x) st"
        using advance_other [of "rid x" q now clock "(st, lg)"] a by simp
      with Cons.prems(2) x show "findById (rid x) st' = Some x" by simp
    qed
    with Cons.prems(1,4) r
    have "findById (rid r) (fst (foldl (advance now clock) (st', lg') reqs)) =
          findById (rid r) (fst (sendNextBatch (rid r) (clock (rid r))
                                   [r \<lparr> batchInProgress := False \<rparr>]))"
      by (intro Cons.IH) simp_all
    with a show ?thesis by simp
  qed
qed

text \<open>
  A run of the scheduler, request by request, in a collection with unique ids:
  \<open>sendNextBatch\<close> is invoked on the scanned requests whose window has elapsed, in the
  order of the collection; each of them ends as \<open>sendNextBatch\<close> leaves it after
  \<open>batchInProgress\<close> was reset, and every other request is stored unchanged.
\<close>

lemma checkPendingBatches_processes:
  assumes "distinct (map rid s)"
  shows "snd (checkPendingBatches True now clock s)
           = map rid (filter (\<lambda>r. scanFilter r \<and> windowElapsed now r) s)
    \<and> (\<forall>r\<in>set s. findById (rid r) (fst (checkPendingBatches True now clock s)) =
          (if scanFilter r \<and> windowElapsed now r
           then findById (rid r) (fst (sendNextBatch (rid r) (clock (rid r))
                                         [r \<lparr> batchInProgress := False \<rparr>]))
           else Some r))"
proof (intro conjI ballI)
  show "snd (checkPendingBatches True now clock s)
           = map rid (filter (\<lambda>r. scanFilter r \<and> windowElapsed now r) s)"
    by (simp add: checkPendingBatches_def foldl_advance_log conj_commute)
next
  fix r assume r: "r \<in> set s"
  have d: "distinct (map rid (filter scanFilter s))"
    using assms by (rule distinct_map_filter)
  have f: "\<forall>q\<in>set (filter scanFilter s). findById (rid q) s = Some q"
    using assms by (simp add: findById_distinct)
  show "findById (rid r) (fst (checkPendingBatches True now clock s)) =
          (if scanFilter r \<and> windowElapsed now r
           then findById (rid r) (fst (sendNextBatch (rid r) (clock (rid r))
                                         [r \<lparr> batchInProgress := False \<rparr>]))
           else Some r)"
  proof (cases "scanFilter r \<and> windowElapsed now r")
    case True
    with r have "r \<in> set (filter scanFilter s)" by simp
    from foldl_advance_due [OF d f this, of now clock "[]"] True show ?thesis
      by (simp add: checkPendingBatches_def)
  next
    case False
    from foldl_advance_not_due [OF assms r False, of clock] False show ?thesis
      by (auto simp add: checkPendingBatches_def)
  qed
qed


section \<open>Histories\<close>

lemma exec_evolves: "distinct (map rid s) \<Longrightarrow> list_all2 evolves s (exec op s)"
  by (cases op)
     (simp_all add: sendNextBatch_evolves getBloodRequestById_evolves
        confirmDonation_evolves checkPendingBatches_evolves)

lemma run_Nil [simp]: "run [] s = s"
  by (simp add: run_def)

lemma run_Cons [simp]: "run (op # ops) s = run ops (exec op s)"
  by (simp add: run_def)


lemma run_evolves: "distinct (map rid s) \<Longrightarrow> list_all2 evolves s (run ops s)"
proof (induction ops arbitrary: s)
  case Nil
  then show ?case by simp
next
  case (Cons op ops)
  have 1: "list_all2 evolves s (exec op s)"
    using Cons.prems by (rule exec_evolves)
  then have "distinct (map rid (exec op s))"
    using Cons.prems by (simp add: all_evolves_rid)
  then have "list_all2 evolves (exec op s) (run ops (exec op s))"
    by (rule Cons.IH)
  with 1 show ?case by (simp add: all_evolves_trans)
qed

lemma run_distinct: "distinct (map rid s) \<Longrightarrow> distinct (map rid (run ops s))"
  using run_evolves [of s ops] by (simp add: all_evolves_rid)

lemma run_findById:
  "distinct (map rid s) \<Longrightarrow> findById i s = Some r \<Longrightarrow>
   \<exists>r'. findById i (run ops s) = Some r' \<and> evolves r r'"
  using run_evolves [of s ops] by (rule all_evolves_findById)


section \<open>The queue of a new request\<close>

lemma donorIds_distinct:
  "distinct (map d_id allDonors) \<Longrightarrow> distinct (donorIds collation bg t allDonors)"
  unfolding donorIds_def matchingDonors_def
  by (simp add: distinct_map_filter distinct_map inj_on_def)

lemma newBloodRequest_partition:
  assumes "distinct (map d_id allDonors)"
  shows "notifiedDonors (newBloodRequest collation i h bg q u rb allDonors t) = []
    \<and> distinct (notifiedDonors (newBloodRequest collation i h bg q u rb allDonors t) @
                 remainingDonorsQueue (newBloodRequest collation i h bg q u rb allDonors t))
    \<and> length (remainingDonorsQueue (newBloodRequest collation i h bg q u rb allDonors t))
        = length (filter (matches bg t) allDonors)"
  using donorIds_distinct [OF assms, of collation bg t]
  by (simp add: newBloodRequest_def) (simp add: donorIds_def matchingDonors_def)

lemma created0_eval:
  "created0 = \<lparr> rid = 1, hospitalId = 7, bloodGroup = ''O+'', quantity = 2,
       urgency = ''high'', requiredBy = 1000000, status = Active, confirmedUnits = 0,
       batchSize = 1, notifiedDonors = [], remainingDonorsQueue = [23, 22],
       batchSentAt = None, responseWindow = 2, batchInProgress = False \<rparr>"
  by (simp add: created0_def newBloodRequest_def donorIds_def matchingDonors_def matches_def
        normalizedDonor_def donorBloodGroup_def truthy_def displayName_def donors0_def
        toUpperCase_def replaceWhitespace_def isWhitespace_def toUpperCaseChar_def
        char_of_def bit_0)



section \<open>Terminal states\<close>

lemma getBloodRequestById_nonactive:
  "findById i s = Some r \<Longrightarrow> status r \<noteq> Active \<Longrightarrow>
   getBloodRequestById i now s = (s, closed)"
  by (simp add: getBloodRequestById_def Let_def)

lemma getBloodRequestById_legacy_found:
  "findById i s = Some r \<Longrightarrow> getBloodRequestById_legacy i s = (s, found r)"
  by (simp add: getBloodRequestById_legacy_def)

text \<open>
  Claim C9. In a collection with unique ids, once a request is fulfilled, expired or
  cancelled, it keeps that status through every history of operations (reads with their
  lifecycle evaluation, confirmations, dispatches and scheduler runs); at every later
  moment the public read returns the collection untouched with the generic closed
  response, which carries no data of the request, and \<open>confirmDonation\<close> returns the
  collection untouched with the 400 "Blood request already fulfilled or expired.".
\<close>

theorem terminal_status_sticky:
  assumes "distinct (map rid s)" and "findById i s = Some r"
    and "status r = Fulfilled \<or> status r = Expired \<or> status r = Cancelled"
  shows "\<exists>r'. findById i (run ops s) = Some r' \<and> status r' = status r
           \<and> getBloodRequestById i now (run ops s) =
               (run ops s,
                \<lparr> res_code = 200, res_success = True, res_status = Some ''closed'',
                  res_message = Some ''Blood request fulfilled. Thank you.'',
                  res_data = NoData \<rparr>)
           \<and> confirmDonation i now (run ops s) =
               (run ops s,
                \<lparr> res_code = 400, res_success = False, res_status = None,
                  res_message = Some ''Blood request already fulfilled or expired.'',
                  res_data = NoData \<rparr>)"
proof -
  from run_findById [OF assms(1,2), of ops]
  obtain r' where r': "findById i (run ops s) = Some r'" and e: "evolves r r'" by blast
  from assms(3) have na: "status r \<noteq> Active" by auto
  with e have st: "status r' = status r" by (simp add: evolves_def)
  with na have na': "status r' \<noteq> Active" by simp
  have g: "getBloodRequestById i now (run ops s) = (run ops s, closed)"
    using r' na' by (rule getBloodRequestById_nonactive)
  have c: "confirmDonation i now (run ops s) = (run ops s, alreadyClosed)"
    using r' na' by (simp add: confirmDonation_unfold [OF run_distinct [OF assms(1)]])
  from r' st g c show ?thesis
    by (simp add: closed_def alreadyClosed_def)
qed

theorem terminal_status_sticky_witness:
  "distinct (map rid [request0 \<lparr> status := Expired \<rparr>])
   \<and> findById 1 [request0 \<lparr> status := Expired \<rparr>] = Some (request0 \<lparr> status := Expired \<rparr>)
   \<and> run [GetBloodRequestById 1 5, ConfirmDonation 1 6, SendNextBatch 1 7,
           CheckPendingBatches True 8 (\<lambda>_. 9)] [request0 \<lparr> status := Expired \<rparr>]
       = [request0 \<lparr> status := Expired \<rparr>]
   \<and> getBloodRequestById 1 10
         (run [GetBloodRequestById 1 5, ConfirmDonation 1 6, SendNextBatch 1 7,
               CheckPendingBatches True 8 (\<lambda>_. 9)] [request0 \<lparr> status := Expired \<rparr>])
       = ([request0 \<lparr> status := Expired \<rparr>], closed)
   \<and> confirmDonation 1 10
         (run [GetBloodRequestById 1 5, ConfirmDonation 1 6, SendNextBatch 1 7,
               CheckPendingBatches True 8 (\<lambda>_. 9)] [request0 \<lparr> status := Expired \<rparr>])
       = ([request0 \<lparr> status := Expired \<rparr>], alreadyClosed)"
  using terminal_status_sticky [of "[request0 \<lparr> status := Expired \<rparr>]" 1
          "request0 \<lparr> status := Expired \<rparr>"
          "[GetBloodRequestById 1 5, ConfirmDonation 1 6, SendNextBatch 1 7,
            CheckPendingBatches True 8 (\<lambda>_. 9)]" 10]
  by (simp add: request0_def closed_def alreadyClosed_def sendNextBatch_def
        confirmDonation_def findOneAndUpdate_def getBloodRequestById_def
        checkPendingBatches_def scanFilter_def Let_def)

section \<open>No overbooking\<close>

lemma confirmAll_run: "fst (confirmAll i nows s) = run (map (ConfirmDonation i) nows) s"
proof (induction nows arbitrary: s)
  case Nil
  then show ?case by simp
next
  case (Cons now nows)
  obtain s1 res where c: "confirmDonation i now s = (s1, res)"
    by (cases "confirmDonation i now s")
  obtain s2 ress where a: "confirmAll i nows s1 = (s2, ress)"
    by (cases "confirmAll i nows s1")
  from Cons [of s1] a have "s2 = run (map (ConfirmDonation i) nows) s1" by simp
  with c a show ?case by simp
qed






section \<open>Two dispatches in succession\<close>





section \<open>Donor eligibility\<close>



lemma eligibility_queue_example:
  "donorIds (\<lambda>str. str) ''o +'' 500 donors0 = [23, 22]
   \<and> donorIds (\<lambda>str. str) ''O+'' 50 donors0 = [22]
   \<and> donorIds (\<lambda>str. str) ''a+'' 500 donors0 = [24]"
  by (simp add: donorIds_def matchingDonors_def matches_def
        normalizedDonor_def donorBloodGroup_def truthy_def displayName_def donors0_def
        toUpperCase_def replaceWhitespace_def isWhitespace_def toUpperCaseChar_def
        char_of_def bit_0)

section \<open>The status enum of the schema\<close>

text \<open>
  Claim C3, evaluated. The schema's enum is pending, fulfilled, cancelled and its default
  is pending. The document the controller with \<open>confirmDonation\<close> builds has status
  active, which the enum does not hold: the validation of \<open>save\<close> refuses it and
  \<open>createBloodRequest\<close> stores nothing. The document the older controller builds passes
  the validation and has status pending.
\<close>

theorem schema_status_vocabulary:
  "status_default = Pending \<and> set status_enum = {Pending, Fulfilled, Cancelled}
   \<and> status created0 = Active \<and> \<not> validate created0
   \<and> createBloodRequest validate created0 10 [] = ([], failed, [])
   \<and> status (newBloodRequest_legacy (\<lambda>str. str) 1 7 ''O+'' 2 ''high'' 1000000 donors0 500)
       = Pending
   \<and> validate (newBloodRequest_legacy (\<lambda>str. str) 1 7 ''O+'' 2 ''high'' 1000000 donors0 500)"
  by (auto simp add: created0_eval status_default_def status_enum_def validate_def
        createBloodRequest_def newBloodRequest_legacy_def bloodGroup_enum_def urgency_enum_def)

end
